theory Spec2Isabelle
  imports Main "HOL-Library.Monad_Syntax"
begin

section \<open>The store of one list\<close>

text \<open>
  \<^verbatim>\<open>tslist.go\<close> builds a doubly linked chain of heap-allocated \<^verbatim>\<open>Element\<close>s
  hanging off a \<^verbatim>\<open>List\<close>.  A non-nil \<^verbatim>\<open>*Element\<close> is an index into the list of the
  elements allocated so far (\<open>elems\<close>), a possibly nil one is a \<open>nat option\<close>.
  Go pointers never dangle, so an operation on an element \<open>e\<close> is only meant for
  \<open>e < length (elems s)\<close>.

  The model is the sequential semantics of the code: the mutexes (\<^verbatim>\<open>m\<close>) are left
  out, and so is the back pointer \<^verbatim>\<open>l\<close> of an element, which always names the one
  list whose store this is.  Go's \<^verbatim>\<open>int\<close> counter is an unbounded \<open>int\<close>: it moves
  by one per call, so it cannot wrap before \<open>2^31\<close> calls.
\<close>

record 'a Element =
  "value" :: 'a
  remove :: bool
  removed :: bool
  "next" :: "nat option"
  prev :: "nat option"

record 'a List =
  head :: "nat option"
  tail :: "nat option"
  size_l :: int
  elems :: "'a Element list"

text \<open>Writes through an element pointer: \<^verbatim>\<open>p.next = v\<close>, \<^verbatim>\<open>p.prev = v\<close>,
  \<^verbatim>\<open>p.removed = v\<close>, \<^verbatim>\<open>p.remove = v\<close>.\<close>

definition set_next :: "nat \<Rightarrow> nat option \<Rightarrow> 'a Element list \<Rightarrow> 'a Element list" where
  "set_next p v es = es[p := (es ! p)\<lparr>next := v\<rparr>]"

definition set_prev :: "nat \<Rightarrow> nat option \<Rightarrow> 'a Element list \<Rightarrow> 'a Element list" where
  "set_prev p v es = es[p := (es ! p)\<lparr>prev := v\<rparr>]"

definition set_removed :: "nat \<Rightarrow> bool \<Rightarrow> 'a Element list \<Rightarrow> 'a Element list" where
  "set_removed p v es = es[p := (es ! p)\<lparr>removed := v\<rparr>]"

definition set_remove :: "nat \<Rightarrow> bool \<Rightarrow> 'a Element list \<Rightarrow> 'a Element list" where
  "set_remove p v es = es[p := (es ! p)\<lparr>remove := v\<rparr>]"

section \<open>List operations\<close>

definition New :: "'a List" where
  "New = \<lparr>head = None, tail = None, size_l = 0, elems = []\<rparr>"

definition Len :: "'a List \<Rightarrow> int" where
  "Len s = size_l s"

definition Head :: "'a List \<Rightarrow> nat option" where
  "Head s = head s"

text \<open>
  \<^verbatim>\<open>Append\<close> allocates the element first, returns early on an empty list (without
  counting), and otherwise dereferences \<^verbatim>\<open>l.tail\<close>: a nil tail under a non-nil head
  is a panic, the result \<open>None\<close>.
\<close>

definition Append :: "'a \<Rightarrow> 'a List \<Rightarrow> (nat \<times> 'a List) option" where
  "Append v s =
     (let e = length (elems s);
          s1 = s\<lparr>elems := elems s @
                 [\<lparr>value = v, remove = False, removed = False, next = None, prev = None\<rparr>]\<rparr>
      in case head s1 of
           None \<Rightarrow> Some (e, s1\<lparr>head := Some e, tail := Some e\<rparr>)
         | Some h \<Rightarrow>
             (case tail s1 of
                None \<Rightarrow> None
              | Some t \<Rightarrow>
                  let s2 = s1\<lparr>elems := set_next t (Some e) (elems s1)\<rparr>;
                      s3 = s2\<lparr>elems := set_prev e (tail s2) (elems s2)\<rparr>;
                      s4 = s3\<lparr>tail := Some e\<rparr>;
                      s5 = s4\<lparr>size_l := size_l s4 + 1\<rparr>
                  in Some (e, s5)))"

definition PushBack :: "'a \<Rightarrow> 'a List \<Rightarrow> (nat \<times> 'a List) option" where
  "PushBack v s = Append v s"

section \<open>Element operations\<close>

definition Value :: "nat \<Rightarrow> 'a List \<Rightarrow> 'a" where
  "Value e s = value (elems s ! e)"

definition ToRemove :: "nat \<Rightarrow> 'a List \<Rightarrow> bool" where
  "ToRemove e s = remove (elems s ! e)"

definition RemoveMark :: "nat \<Rightarrow> 'a List \<Rightarrow> 'a List" where
  "RemoveMark e s = s\<lparr>elems := set_remove e True (elems s)\<rparr>"

text \<open>
  The loop of \<^verbatim>\<open>Next\<close>: \<^verbatim>\<open>for next != nil && next.ToRemove() { next = next.next }\<close>.
  Nothing in the code bounds it, so it is a partial function and \<open>None\<close> stands for
  a loop that never ends (on a cycle of marked elements).
\<close>

partial_function (option) skip_marked :: "'a Element list \<Rightarrow> nat option \<Rightarrow> nat option option" where
  "skip_marked es n =
     (case n of
        None \<Rightarrow> Some None
      | Some i \<Rightarrow> if remove (es ! i) then skip_marked es (next (es ! i)) else Some (Some i))"

declare skip_marked.simps [code]

definition Next :: "nat \<Rightarrow> 'a List \<Rightarrow> nat option option" where
  "Next e s = skip_marked (elems s) (next (elems s ! e))"

text \<open>
  \<^verbatim>\<open>Remove\<close>.  The fields \<^verbatim>\<open>e.prev\<close> and \<^verbatim>\<open>e.next\<close> are read once: the writes
  between the source's reads go to the neighbours' fields and leave both values as they
  are.
\<close>

definition Remove :: "nat \<Rightarrow> 'a List \<Rightarrow> 'a List" where
  "Remove e s =
     (if removed (elems s ! e) then s
      else
        let s1 = s\<lparr>elems := set_removed e True (elems s)\<rparr>;
            s2 = s1\<lparr>size_l := size_l s1 - 1\<rparr>
        in case (prev (elems s2 ! e), next (elems s2 ! e)) of
             (None, None) \<Rightarrow> s2\<lparr>head := None, tail := None\<rparr>
           | (None, Some n) \<Rightarrow> s2\<lparr>head := Some n, elems := set_prev n None (elems s2)\<rparr>
           | (Some p, None) \<Rightarrow> s2\<lparr>tail := Some p, elems := set_next p None (elems s2)\<rparr>
           | (Some p, Some n) \<Rightarrow>
               s2\<lparr>elems := set_prev n (Some p) (set_next p (Some n) (elems s2))\<rparr>)"

section \<open>The sweep\<close>

text \<open>
  The inner loop of \<^verbatim>\<open>RemoveMarked\<close> walks from an element with \<^verbatim>\<open>Next\<close>, removing
  what is marked and clearing \<^verbatim>\<open>done\<close> when it does.  The outer loop is
  \<^verbatim>\<open>for done := true; !done; done = true\<close>: the post statement sets \<^verbatim>\<open>done\<close> again
  before the condition is read, whatever the body did.
\<close>

partial_function (option) sweep :: "nat option \<Rightarrow> bool \<Rightarrow> 'a List \<Rightarrow> (bool \<times> 'a List) option" where
  "sweep e done s =
     (case e of
        None \<Rightarrow> Some (done, s)
      | Some x \<Rightarrow>
          if ToRemove x s
          then Option.bind (Next x (Remove x s)) (\<lambda>n. sweep n False (Remove x s))
          else Option.bind (Next x s) (\<lambda>n. sweep n done s))"

declare sweep.simps [code]

function RemoveMarked_loop :: "bool \<Rightarrow> 'a List \<Rightarrow> 'a List option" where
  "RemoveMarked_loop done s =
     (if \<not> done
      then (case sweep (head s) done s of
              None \<Rightarrow> None
            | Some (d, s') \<Rightarrow> RemoveMarked_loop True s')
      else Some s)"
  by pat_completeness auto
termination
  by (relation "measure (\<lambda>(done, s). if done then 0 else 1)") auto

definition RemoveMarked :: "'a List \<Rightarrow> 'a List option" where
  "RemoveMarked s = RemoveMarked_loop True s"

section \<open>Traversal\<close>




text \<open>
  The states a program can build: from \<^verbatim>\<open>New()\<close>, by the four mutating methods, on
  handles that \<^verbatim>\<open>Append\<close> has returned.
\<close>

inductive reachable :: "'a List \<Rightarrow> bool" where
  reach_New: "reachable New"
| reach_Append: "reachable s \<Longrightarrow> Append v s = Some (e, s') \<Longrightarrow> reachable s'"
| reach_Remove: "reachable s \<Longrightarrow> e < length (elems s) \<Longrightarrow> reachable (Remove e s)"
| reach_RemoveMark: "reachable s \<Longrightarrow> e < length (elems s) \<Longrightarrow> reachable (RemoveMark e s)"
| reach_RemoveMarked: "reachable s \<Longrightarrow> RemoveMarked s = Some s' \<Longrightarrow> reachable s'"

section \<open>The shape of a reachable store\<close>

text \<open>
  \<open>dll es p c q\<close>: the elements \<open>c\<close> are linked both ways in this order, the first
  one's \<^verbatim>\<open>prev\<close> being \<open>p\<close> and the last one's \<^verbatim>\<open>next\<close> being \<open>q\<close>.
\<close>

fun dll :: "'a Element list \<Rightarrow> nat option \<Rightarrow> nat list \<Rightarrow> nat option \<Rightarrow> bool" where
  "dll es p [] q = True"
| "dll es p (x # xs) q =
     (prev (es ! x) = p \<and> next (es ! x) = (case xs of [] \<Rightarrow> q | y # _ \<Rightarrow> Some y) \<and>
      dll es (Some x) xs q)"

text \<open>
  Every link of every element allocated so far, removed ones too, points forward
  (\<^verbatim>\<open>next\<close>) or backward (\<^verbatim>\<open>prev\<close>) in allocation order and inside the store.
\<close>

definition ptrs_ok :: "'a Element list \<Rightarrow> bool" where
  "ptrs_ok es =
     (\<forall>i<length es. (\<forall>j. next (es ! i) = Some j \<longrightarrow> i < j \<and> j < length es) \<and>
                     (\<forall>j. prev (es ! i) = Some j \<longrightarrow> j < i))"

text \<open>
  \<open>c\<close> is the chain of the list: exactly the elements not yet removed, in
  allocation order, linked both ways, with \<^verbatim>\<open>head\<close> and \<^verbatim>\<open>tail\<close> at its ends.
\<close>

definition chain_of :: "'a List \<Rightarrow> nat list \<Rightarrow> bool" where
  "chain_of s c =
     (sorted_wrt (<) c \<and>
      set c = {i. i < length (elems s) \<and> \<not> removed (elems s ! i)} \<and>
      head s = (case c of [] \<Rightarrow> None | x # _ \<Rightarrow> Some x) \<and>
      tail s = (if c = [] then None else Some (last c)) \<and>
      dll (elems s) None c None)"

definition list_inv :: "'a List \<Rightarrow> bool" where
  "list_inv s = (ptrs_ok (elems s) \<and> (\<exists>c. chain_of s c))"

text \<open>The element that \<^verbatim>\<open>Append\<close> allocates: \<^verbatim>\<open>&Element{value: v, l: l}\<close>.\<close>

definition fresh :: "'a \<Rightarrow> 'a Element" where
  "fresh v = \<lparr>value = v, remove = False, removed = False, next = None, prev = None\<rparr>"

text \<open>
  \<open>linked_run es n ms r\<close>: starting at \<open>n\<close> and following \<^verbatim>\<open>next\<close>, one passes exactly the
  elements \<open>ms\<close>, in this order, and then stands at \<open>r\<close>.
\<close>

fun linked_run :: "'a Element list \<Rightarrow> nat option \<Rightarrow> nat list \<Rightarrow> nat option \<Rightarrow> bool" where
  "linked_run es n [] r = (r = n)"
| "linked_run es n (m # ms) r = (n = Some m \<and> linked_run es (next (es ! m)) ms r)"

text \<open>
  \<open>later s s'\<close>: the program goes on from the store \<open>s\<close> and gets to \<open>s'\<close>.
  \<open>frozen e s s'\<close>: the element \<open>e\<close> is removed in \<open>s'\<close> and has the links it has in \<open>s\<close>.
\<close>

inductive later :: "'a List \<Rightarrow> 'a List \<Rightarrow> bool" where
  later_refl: "later s s"
| later_Append: "later s s1 \<Longrightarrow> Append v s1 = Some (e, s2) \<Longrightarrow> later s s2"
| later_Remove: "later s s1 \<Longrightarrow> e < length (elems s1) \<Longrightarrow> later s (Remove e s1)"
| later_RemoveMark: "later s s1 \<Longrightarrow> e < length (elems s1) \<Longrightarrow> later s (RemoveMark e s1)"
| later_RemoveMarked: "later s s1 \<Longrightarrow> RemoveMarked s1 = Some s2 \<Longrightarrow> later s s2"

definition frozen :: "nat \<Rightarrow> 'a List \<Rightarrow> 'a List \<Rightarrow> bool" where
  "frozen e s s' =
     (e < length (elems s') \<and> removed (elems s' ! e) \<and>
      next (elems s' ! e) = next (elems s ! e) \<and> prev (elems s' ! e) = prev (elems s ! e))"

section \<open>Example stores\<close>

text \<open>A client loop: the values \<open>vs\<close> appended one after the other.\<close>

fun appends :: "'a list \<Rightarrow> 'a List \<Rightarrow> 'a List option" where
  "appends [] s = Some s"
| "appends (v # vs) s =
     (case Append v s of None \<Rightarrow> None | Some (e, s') \<Rightarrow> appends vs s')"

text \<open>The stores after \<^verbatim>\<open>Append(1)\<close> and after \<^verbatim>\<open>Append(1), Append(2), Append(3)\<close>
  on a new list.\<close>

definition st1 :: "nat List" where
  "st1 = \<lparr>head = Some 0, tail = Some 0, size_l = 0,
          elems = [\<lparr>value = 1, remove = False, removed = False, next = None, prev = None\<rparr>]\<rparr>"

definition st3 :: "nat List" where
  "st3 = \<lparr>head = Some 0, tail = Some 2, size_l = 2,
          elems = [\<lparr>value = 1, remove = False, removed = False, next = Some 1, prev = None\<rparr>,
                   \<lparr>value = 2, remove = False, removed = False, next = Some 2, prev = Some 0\<rparr>,
                   \<lparr>value = 3, remove = False, removed = False, next = None, prev = Some 1\<rparr>]\<rparr>"

text \<open>The store after \<^verbatim>\<open>Append(1)\<close> to \<^verbatim>\<open>Append(5)\<close> on a new list.\<close>

definition st5 :: "nat List" where
  "st5 = \<lparr>head = Some 0, tail = Some 4, size_l = 4,
          elems = [\<lparr>value = 1, remove = False, removed = False, next = Some 1, prev = None\<rparr>,
                   \<lparr>value = 2, remove = False, removed = False, next = Some 2, prev = Some 0\<rparr>,
                   \<lparr>value = 3, remove = False, removed = False, next = Some 3, prev = Some 1\<rparr>,
                   \<lparr>value = 4, remove = False, removed = False, next = Some 4, prev = Some 2\<rparr>,
                   \<lparr>value = 5, remove = False, removed = False, next = None, prev = Some 3\<rparr>]\<rparr>"

section \<open>Field reads after a write\<close>

lemma nth_upd:
  "es[p := x] ! i = (if i = p \<and> p < length es then x else es ! i)"
  by (cases "p < length es") (auto simp: nth_list_update list_update_beyond)

lemma length_set [simp]:
  "length (set_next p v es) = length es"
  "length (set_prev p w es) = length es"
  "length (set_removed p b es) = length es"
  "length (set_remove p b es) = length es"
  by (simp_all add: set_next_def set_prev_def set_removed_def set_remove_def)

lemma next_set [simp]:
  "next (set_next p v es ! i) = (if i = p \<and> p < length es then v else next (es ! i))"
  "next (set_prev p w es ! i) = next (es ! i)"
  "next (set_removed p b es ! i) = next (es ! i)"
  "next (set_remove p b es ! i) = next (es ! i)"
  by (simp_all add: set_next_def set_prev_def set_removed_def set_remove_def nth_upd)

lemma prev_set [simp]:
  "prev (set_next p v es ! i) = prev (es ! i)"
  "prev (set_prev p w es ! i) = (if i = p \<and> p < length es then w else prev (es ! i))"
  "prev (set_removed p b es ! i) = prev (es ! i)"
  "prev (set_remove p b es ! i) = prev (es ! i)"
  by (simp_all add: set_next_def set_prev_def set_removed_def set_remove_def nth_upd)

lemma removed_set [simp]:
  "removed (set_next p v es ! i) = removed (es ! i)"
  "removed (set_prev p w es ! i) = removed (es ! i)"
  "removed (set_removed p b es ! i) = (if i = p \<and> p < length es then b else removed (es ! i))"
  "removed (set_remove p b es ! i) = removed (es ! i)"
  by (simp_all add: set_next_def set_prev_def set_removed_def set_remove_def nth_upd)

lemma remove_set [simp]:
  "remove (set_next p v es ! i) = remove (es ! i)"
  "remove (set_prev p w es ! i) = remove (es ! i)"
  "remove (set_removed p b es ! i) = remove (es ! i)"
  "remove (set_remove p b es ! i) = (if i = p \<and> p < length es then b else remove (es ! i))"
  by (simp_all add: set_next_def set_prev_def set_removed_def set_remove_def nth_upd)

lemma value_set [simp]:
  "value (set_next p v es ! i) = value (es ! i)"
  "value (set_prev p w es ! i) = value (es ! i)"
  "value (set_removed p b es ! i) = value (es ! i)"
  "value (set_remove p b es ! i) = value (es ! i)"
  by (simp_all add: set_next_def set_prev_def set_removed_def set_remove_def nth_upd)

section \<open>Linked segments and the invariant\<close>

lemma dll_frame:
  "\<forall>x\<in>set c. next (es' ! x) = next (es ! x) \<and> prev (es' ! x) = prev (es ! x) \<Longrightarrow>
   dll es' p c q = dll es p c q"
  by (induction c arbitrary: p) auto

lemma dll_append:
  "dll es p (xs @ ys) q =
     (dll es p xs (case ys of [] \<Rightarrow> q | y # _ \<Rightarrow> Some y) \<and>
      dll es (if xs = [] then p else Some (last xs)) ys q)"
  by (induction xs arbitrary: p) (auto split: list.splits)

lemma sorted_wrt_less_distinct: "sorted_wrt (<) (c :: nat list) \<Longrightarrow> distinct c"
  by (simp add: strict_sorted_iff)

lemma list_inv_New: "list_inv New"
  by (simp add: list_inv_def New_def ptrs_ok_def chain_of_def)

lemma chain_of_frame:
  assumes "chain_of s c" "length (elems s') = length (elems s)"
    "head s' = head s" "tail s' = tail s"
    "\<forall>i. removed (elems s' ! i) = removed (elems s ! i) \<and> next (elems s' ! i) = next (elems s ! i) \<and>
       prev (elems s' ! i) = prev (elems s ! i)"
  shows "chain_of s' c"
proof -
  have "dll (elems s') None c None = dll (elems s) None c None"
    by (rule dll_frame) (simp add: assms(5))
  with assms show ?thesis by (simp add: chain_of_def)
qed

lemma ptrs_ok_next:
  "ptrs_ok es \<Longrightarrow> i < length es \<Longrightarrow> next (es ! i) = Some j \<Longrightarrow> i < j \<and> j < length es"
  unfolding ptrs_ok_def by blast

lemma ptrs_ok_prev:
  "ptrs_ok es \<Longrightarrow> i < length es \<Longrightarrow> prev (es ! i) = Some j \<Longrightarrow> j < i"
  unfolding ptrs_ok_def by blast

lemma ptrs_okI:
  assumes "\<And>i j. i < length es \<Longrightarrow> next (es ! i) = Some j \<Longrightarrow> i < j \<and> j < length es"
    and "\<And>i j. i < length es \<Longrightarrow> prev (es ! i) = Some j \<Longrightarrow> j < i"
  shows "ptrs_ok es"
  unfolding ptrs_ok_def using assms by blast

lemma ptrs_ok_frame:
  assumes "ptrs_ok es" "length es' = length es"
    "\<forall>i. next (es' ! i) = next (es ! i) \<and> prev (es' ! i) = prev (es ! i)"
  shows "ptrs_ok es'"
proof (rule ptrs_okI)
  fix i j assume "i < length es'" "next (es' ! i) = Some j"
  then have "i < length es" "next (es ! i) = Some j" using assms(2,3) by auto
  from ptrs_ok_next [OF assms(1) this] show "i < j \<and> j < length es'" using assms(2) by simp
next
  fix i j assume "i < length es'" "prev (es' ! i) = Some j"
  then have "i < length es" "prev (es ! i) = Some j" using assms(2,3) by auto
  from ptrs_ok_prev [OF assms(1) this] show "j < i" .
qed

lemma list_inv_RemoveMark: "list_inv s \<Longrightarrow> list_inv (RemoveMark e s)"
  unfolding list_inv_def
proof (elim conjE exE, intro conjI exI)
  fix c assume "ptrs_ok (elems s)" "chain_of s c"
  show "ptrs_ok (elems (RemoveMark e s))"
    using \<open>ptrs_ok (elems s)\<close> by (rule ptrs_ok_frame) (simp_all add: RemoveMark_def)
  show "chain_of (RemoveMark e s) c"
    using \<open>chain_of s c\<close> by (rule chain_of_frame) (simp_all add: RemoveMark_def)
qed

lemma chain_of_head: "chain_of s c \<Longrightarrow> head s = (case c of [] \<Rightarrow> None | x # _ \<Rightarrow> Some x)"
  and chain_of_tail: "chain_of s c \<Longrightarrow> tail s = (if c = [] then None else Some (last c))"
  and chain_of_dll: "chain_of s c \<Longrightarrow> dll (elems s) None c None"
  and chain_of_sorted: "chain_of s c \<Longrightarrow> sorted_wrt (<) c"
  and chain_of_set: "chain_of s c \<Longrightarrow> set c = {i. i < length (elems s) \<and> \<not> removed (elems s ! i)}"
  by (simp_all add: chain_of_def)

lemma chain_of_mem:
  "chain_of s c \<Longrightarrow> x \<in> set c \<Longrightarrow> x < length (elems s) \<and> \<not> removed (elems s ! x)"
  by (simp add: chain_of_def)

lemma chain_of_distinct: "chain_of s c \<Longrightarrow> distinct c"
  by (simp add: chain_of_def sorted_wrt_less_distinct)

section \<open>\<^verbatim>\<open>Append\<close> keeps the invariant and does not panic\<close>

lemma Append_empty:
  "head s = None \<Longrightarrow>
   Append v s = Some (length (elems s),
     s\<lparr>elems := elems s @ [fresh v], head := Some (length (elems s)),
        tail := Some (length (elems s))\<rparr>)"
  by (simp add: Append_def fresh_def Let_def)

lemma Append_nonempty:
  "head s = Some h \<Longrightarrow> tail s = Some t \<Longrightarrow>
   Append v s = Some (length (elems s),
     s\<lparr>elems := set_prev (length (elems s)) (Some t)
                  (set_next t (Some (length (elems s))) (elems s @ [fresh v])),
        tail := Some (length (elems s)), size_l := size_l s + 1\<rparr>)"
  by (simp add: Append_def fresh_def Let_def)

lemma Append_panic: "head s = Some h \<Longrightarrow> tail s = None \<Longrightarrow> Append v s = None"
  by (simp add: Append_def)

lemma ptrs_ok_snoc:
  assumes "ptrs_ok es"
  shows "ptrs_ok (es @ [fresh v])"
proof (rule ptrs_okI)
  fix i j assume h: "i < length (es @ [fresh v])" "next ((es @ [fresh v]) ! i) = Some j"
  then have "i < length es" by (cases "i = length es") (auto simp: fresh_def)
  with h have "next (es ! i) = Some j" by (simp add: nth_append)
  from ptrs_ok_next [OF assms \<open>i < length es\<close> this]
  show "i < j \<and> j < length (es @ [fresh v])" by simp
next
  fix i j assume h: "i < length (es @ [fresh v])" "prev ((es @ [fresh v]) ! i) = Some j"
  then have "i < length es" by (cases "i = length es") (auto simp: fresh_def)
  with h have "prev (es ! i) = Some j" by (simp add: nth_append)
  from ptrs_ok_prev [OF assms \<open>i < length es\<close> this] show "j < i" .
qed

lemma list_inv_Append_empty:
  assumes "list_inv s" "head s = None"
  shows "list_inv (s\<lparr>elems := elems s @ [fresh v], head := Some (length (elems s)),
        tail := Some (length (elems s))\<rparr>)"
proof -
  from assms(1) obtain c where p: "ptrs_ok (elems s)" and c: "chain_of s c"
    by (auto simp: list_inv_def)
  from c assms(2) have "c = []" by (auto simp: chain_of_def split: list.splits)
  with c have all: "\<forall>i<length (elems s). removed (elems s ! i)"
    by (auto simp: chain_of_def)
  let ?s = "s\<lparr>elems := elems s @ [fresh v], head := Some (length (elems s)),
        tail := Some (length (elems s))\<rparr>"
  have "{i. i < length (elems ?s) \<and> \<not> removed (elems ?s ! i)} = {length (elems s)}"
    using all by (auto simp: nth_append fresh_def less_Suc_eq)
  then have "chain_of ?s [length (elems s)]"
    by (simp add: chain_of_def fresh_def)
  moreover have "ptrs_ok (elems ?s)" using ptrs_ok_snoc [OF p] by simp
  ultimately show ?thesis unfolding list_inv_def by blast
qed

lemma list_inv_Append_nonempty:
  assumes "list_inv s" "head s = Some h" "tail s = Some t"
  shows "list_inv (s\<lparr>elems := set_prev (length (elems s)) (Some t)
                  (set_next t (Some (length (elems s))) (elems s @ [fresh v])),
        tail := Some (length (elems s)), size_l := size_l s + 1\<rparr>)"
    (is "list_inv ?s")
proof -
  let ?es = "elems s" and ?e = "length (elems s)"
  let ?es' = "set_prev ?e (Some t) (set_next t (Some ?e) (?es @ [fresh v]))"
  from assms(1) obtain c where p: "ptrs_ok ?es" and c: "chain_of s c"
    by (auto simp: list_inv_def)
  from chain_of_head [OF c] assms(2) have ne: "c \<noteq> []" by (cases c) simp_all
  with chain_of_tail [OF c] assms(3) have t: "t = last c" by simp
  from ne obtain c' where cc: "c = c' @ [t]" unfolding t
    by (metis append_butlast_last_id)
  have d: "distinct c" by (rule chain_of_distinct [OF c])
  have tn: "t \<notin> set c'" using d cc by simp
  have lt: "\<forall>x\<in>set c. x < ?e" using chain_of_mem [OF c] by blast
  then have tl: "t < ?e" using cc by simp
  have old: "dll ?es None c' (Some t)" "prev (?es ! t) = (if c' = [] then None else Some (last c'))"
    using chain_of_dll [OF c] unfolding cc by (simp_all add: dll_append)
  have fld: "\<And>i. i < ?e \<Longrightarrow> removed (?es' ! i) = removed (?es ! i) \<and>
      prev (?es' ! i) = prev (?es ! i) \<and>
      next (?es' ! i) = (if i = t then Some ?e else next (?es ! i))"
    by (simp add: nth_append)
  have new: "\<not> removed (?es' ! ?e)" "prev (?es' ! ?e) = Some t" "next (?es' ! ?e) = None"
    using tl by (simp_all add: nth_append fresh_def)
  have "dll ?es' None c' (Some t) = dll ?es None c' (Some t)"
  proof (rule dll_frame, rule ballI)
    fix x assume "x \<in> set c'"
    then have "x < ?e" "x \<noteq> t" using lt cc tn by auto
    then show "next (?es' ! x) = next (?es ! x) \<and> prev (?es' ! x) = prev (?es ! x)"
      using fld [of x] by simp
  qed
  with old have 1: "dll ?es' None c' (Some t)" by simp
  have 2: "prev (?es' ! t) = (if c' = [] then None else Some (last c'))" "next (?es' ! t) = Some ?e"
    using fld [OF tl] old(2) by simp_all
  have dl: "dll ?es' None (c @ [?e]) None"
    unfolding cc using 1 2 new by (simp add: dll_append)
  have st: "sorted_wrt (<) (c @ [?e])"
    using chain_of_sorted [OF c] lt by (simp add: sorted_wrt_append)
  have "set c = {i. i < ?e \<and> \<not> removed (?es ! i)}" by (rule chain_of_set [OF c])
  then have se: "set (c @ [?e]) = {i. i < length ?es' \<and> \<not> removed (?es' ! i)}"
    using fld new(1) by (auto simp: less_Suc_eq)
  have hd: "head s = (case c @ [?e] of [] \<Rightarrow> None | x # _ \<Rightarrow> Some x)"
    using chain_of_head [OF c] ne by (cases c) simp_all
  have ch: "chain_of ?s (c @ [?e])"
    unfolding chain_of_def using dl st se hd by simp
  have pk: "ptrs_ok ?es'"
  proof (rule ptrs_okI)
    fix i j assume h: "i < length ?es'" "next (?es' ! i) = Some j"
    show "i < j \<and> j < length ?es'"
    proof (cases "i = ?e")
      case True with h new show ?thesis by simp
    next
      case False
      with h have il: "i < ?e" by simp
      show ?thesis
      proof (cases "i = t")
        case True with h fld [OF il] tl show ?thesis by auto
      next
        case False
        with h fld [OF il] have "next (?es ! i) = Some j" by simp
        from ptrs_ok_next [OF p il this] show ?thesis by simp
      qed
    qed
  next
    fix i j assume h: "i < length ?es'" "prev (?es' ! i) = Some j"
    show "j < i"
    proof (cases "i = ?e")
      case True with h new tl show ?thesis by simp
    next
      case False
      with h have il: "i < ?e" by simp
      with h fld [OF il] have "prev (?es ! i) = Some j" by simp
      from ptrs_ok_prev [OF p il this] show ?thesis .
    qed
  qed
  from ch pk show ?thesis unfolding list_inv_def by auto
qed

lemma list_inv_tail:
  assumes "list_inv s" "head s = Some h"
  shows "\<exists>t. tail s = Some t"
proof -
  from assms(1) obtain c where c: "chain_of s c" by (auto simp: list_inv_def)
  from chain_of_head [OF c] assms(2) have "c \<noteq> []" by (cases c) simp_all
  with chain_of_tail [OF c] show ?thesis by simp
qed

lemma list_inv_Append:
  assumes "list_inv s" "Append v s = Some (e, s')"
  shows "list_inv s'"
proof (cases "head s")
  case None
  from assms(2) have "s' = s\<lparr>elems := elems s @ [fresh v], head := Some (length (elems s)),
        tail := Some (length (elems s))\<rparr>"
    by (auto simp: Append_empty [OF None])
  then show ?thesis using list_inv_Append_empty [OF assms(1) None, of v] by simp
next
  case (Some h)
  from list_inv_tail [OF assms(1) Some] obtain t where t: "tail s = Some t" ..
  from assms(2) have "s' = s\<lparr>elems := set_prev (length (elems s)) (Some t)
                  (set_next t (Some (length (elems s))) (elems s @ [fresh v])),
        tail := Some (length (elems s)), size_l := size_l s + 1\<rparr>"
    by (auto simp: Append_nonempty [OF Some t])
  then show ?thesis using list_inv_Append_nonempty [OF assms(1) Some t, of v] by simp
qed

lemma list_inv_Append_total:
  assumes "list_inv s"
  shows "\<exists>s'. Append v s = Some (length (elems s), s')"
proof (cases "head s")
  case None
  then show ?thesis by (simp add: Append_empty)
next
  case (Some h)
  from list_inv_tail [OF assms(1) Some] obtain t where t: "tail s = Some t" ..
  with Some show ?thesis by (simp add: Append_nonempty)
qed

section \<open>\<^verbatim>\<open>Remove\<close> keeps the invariant\<close>

lemma dll_change_last:
  "dll es p xs q \<Longrightarrow> distinct xs \<Longrightarrow>
   \<forall>x\<in>set xs. prev (es' ! x) = prev (es ! x) \<and>
      next (es' ! x) = (if x = last xs then q' else next (es ! x)) \<Longrightarrow>
   dll es' p xs q'"
proof (induction xs arbitrary: p)
  case Nil
  then show ?case by simp
next
  case (Cons x xs)
  show ?case
  proof (cases xs)
    case Nil
    with Cons.prems show ?thesis by simp
  next
    case (Cons y ys)
    have "x \<noteq> last xs" using Cons.prems(2) Cons by auto
    moreover have "dll es' (Some x) xs q'"
      using Cons.prems Cons by (intro Cons.IH) auto
    ultimately show ?thesis using Cons.prems(1,3) Cons by simp
  qed
qed

lemma dll_change_first:
  assumes "dll es p ys q" "distinct ys"
    "\<forall>y\<in>set ys. next (es' ! y) = next (es ! y) \<and>
      prev (es' ! y) = (if y = hd ys then p' else prev (es ! y))"
  shows "dll es' p' ys q"
proof (cases ys)
  case Nil
  then show ?thesis by simp
next
  case (Cons y ys')
  have "dll es' (Some y) ys' q = dll es (Some y) ys' q"
    by (rule dll_frame) (use assms(2,3) Cons in auto)
  then show ?thesis using assms(1,3) Cons by simp
qed

lemma Remove_removed: "removed (elems s ! e) \<Longrightarrow> Remove e s = s"
  by (simp add: Remove_def)

lemma Remove_fields:
  assumes "\<not> removed (elems s ! e)" "e < length (elems s)"
    "\<forall>j. prev (elems s ! e) = Some j \<longrightarrow> j < length (elems s)"
    "\<forall>j. next (elems s ! e) = Some j \<longrightarrow> j < length (elems s)"
  shows "length (elems (Remove e s)) = length (elems s)"
    and "removed (elems (Remove e s) ! i) = (i = e \<or> removed (elems s ! i))"
    and "next (elems (Remove e s) ! i) =
           (if Some i = prev (elems s ! e) then next (elems s ! e) else next (elems s ! i))"
    and "prev (elems (Remove e s) ! i) =
           (if Some i = next (elems s ! e) then prev (elems s ! e) else prev (elems s ! i))"
    and "remove (elems (Remove e s) ! i) = remove (elems s ! i)"
    and "value (elems (Remove e s) ! i) = value (elems s ! i)"
    and "head (Remove e s) = (if prev (elems s ! e) = None then next (elems s ! e) else head s)"
    and "tail (Remove e s) = (if next (elems s ! e) = None then prev (elems s ! e) else tail s)"
    and "size_l (Remove e s) = size_l s - 1"
  using assms by (auto simp: Remove_def Let_def split: option.splits)

text \<open>Where a live element sits in the chain, and what its two links are.\<close>

lemma chain_of_split:
  assumes "chain_of s c" "e < length (elems s)" "\<not> removed (elems s ! e)"
  obtains xs ys where "c = xs @ e # ys"
    "prev (elems s ! e) = (if xs = [] then None else Some (last xs))"
    "next (elems s ! e) = (case ys of [] \<Rightarrow> None | y # _ \<Rightarrow> Some y)"
    "dll (elems s) None xs (Some e)" "dll (elems s) (Some e) ys None"
proof -
  from chain_of_set [OF assms(1)] assms(2,3) have "e \<in> set c" by simp
  then obtain xs ys where c: "c = xs @ e # ys" by (auto simp: in_set_conv_decomp)
  from chain_of_dll [OF assms(1)] show thesis
    unfolding c by (intro that [of xs ys]) (simp_all add: c dll_append)
qed

lemma list_inv_Remove:
  assumes "list_inv s" "e < length (elems s)"
  shows "list_inv (Remove e s)"
proof (cases "removed (elems s ! e)")
  case True
  with assms(1) show ?thesis by (simp add: Remove_removed)
next
  case False
  let ?es = "elems s" and ?es' = "elems (Remove e s)"
  from assms(1) obtain c where p: "ptrs_ok ?es" and c: "chain_of s c"
    by (auto simp: list_inv_def)
  from chain_of_split [OF c assms(2) False] obtain xs ys where
    cc: "c = xs @ e # ys"
    and pe: "prev (?es ! e) = (if xs = [] then None else Some (last xs))"
    and ne: "next (?es ! e) = (case ys of [] \<Rightarrow> None | y # _ \<Rightarrow> Some y)"
    and dx: "dll ?es None xs (Some e)" and dy: "dll ?es (Some e) ys None" .
  have rp: "\<forall>j. prev (?es ! e) = Some j \<longrightarrow> j < length ?es"
    using ptrs_ok_prev [OF p assms(2)] assms(2) by fastforce
  have rn: "\<forall>j. next (?es ! e) = Some j \<longrightarrow> j < length ?es"
    using ptrs_ok_next [OF p assms(2)] by blast
  note f = Remove_fields [OF False assms(2) rp rn]
  have d: "distinct (xs @ e # ys)" using chain_of_distinct [OF c] cc by simp
  have so: "sorted_wrt (<) (xs @ e # ys)" using chain_of_sorted [OF c] cc by simp
  have hdy: "ys \<noteq> [] \<Longrightarrow> hd ys \<in> set ys" and lsx: "xs \<noteq> [] \<Longrightarrow> last xs \<in> set xs" by simp_all
  have 1: "dll ?es' None xs (case ys of [] \<Rightarrow> None | y # _ \<Rightarrow> Some y)"
  proof (rule dll_change_last [OF dx], goal_cases)
    case 1 show ?case using d by simp
  next
    case 2
    show ?case
    proof
      fix x assume x: "x \<in> set xs"
      then have "xs \<noteq> []" by auto
      moreover have "set xs \<inter> set ys = {}" using d by simp
      with x have "x \<notin> set ys" by blast
      with hdy have "ys \<noteq> [] \<Longrightarrow> x \<noteq> hd ys" by blast
      then have "Some x \<noteq> next (?es ! e)" by (auto simp: ne split: list.splits)
      ultimately show "prev (?es' ! x) = prev (?es ! x) \<and>
        next (?es' ! x) = (if x = last xs then case ys of [] \<Rightarrow> None | y # _ \<Rightarrow> Some y else next (?es ! x))"
        by (auto simp: f pe ne)
    qed
  qed
  have 2: "dll ?es' (if xs = [] then None else Some (last xs)) ys None"
  proof (rule dll_change_first [OF dy], goal_cases)
    case 1 show ?case using d by simp
  next
    case 2
    show ?case
    proof
      fix y assume y: "y \<in> set ys"
      then have "ys \<noteq> []" by auto
      then obtain y' ys' where yy: "ys = y' # ys'" by (cases ys) auto
      have "set xs \<inter> set ys = {}" using d by simp
      with y have "y \<notin> set xs" by blast
      with lsx have "xs \<noteq> [] \<Longrightarrow> y \<noteq> last xs" by blast
      then have "Some y \<noteq> prev (?es ! e)" by (auto simp: pe)
      then show "next (?es' ! y) = next (?es ! y) \<and>
        prev (?es' ! y) = (if y = hd ys then if xs = [] then None else Some (last xs) else prev (?es ! y))"
        by (auto simp: f pe ne yy)
    qed
  qed
  have dl: "dll ?es' None (xs @ ys) None" using 1 2 by (simp add: dll_append)
  have st: "sorted_wrt (<) (xs @ ys)" using so by (auto simp: sorted_wrt_append)
  have se: "set (xs @ ys) = {i. i < length ?es' \<and> \<not> removed (?es' ! i)}"
    using chain_of_set [OF c] d unfolding cc by (auto simp: f)
  have hd: "head (Remove e s) = (case xs @ ys of [] \<Rightarrow> None | x # _ \<Rightarrow> Some x)"
    using chain_of_head [OF c] unfolding cc by (cases xs) (simp_all add: f pe ne)
  have tl: "tail (Remove e s) = (if xs @ ys = [] then None else Some (last (xs @ ys)))"
    using chain_of_tail [OF c] unfolding cc by (cases ys) (simp_all add: f pe ne)
  have ch: "chain_of (Remove e s) (xs @ ys)"
    unfolding chain_of_def using dl st se hd tl by simp
  have pk: "ptrs_ok ?es'"
  proof (rule ptrs_okI)
    fix i j assume h: "i < length ?es'" "next (?es' ! i) = Some j"
    then have il: "i < length ?es" by (simp add: f)
    show "i < j \<and> j < length ?es'"
    proof (cases "Some i = prev (?es ! e)")
      case True
      with h have "next (?es ! e) = Some j" by (simp add: f)
      from ptrs_ok_next [OF p assms(2) this] ptrs_ok_prev [OF p assms(2) True [symmetric]]
      show ?thesis by (simp add: f)
    next
      case False
      with h have "next (?es ! i) = Some j" by (simp add: f)
      from ptrs_ok_next [OF p il this] show ?thesis by (simp add: f)
    qed
  next
    fix i j assume h: "i < length ?es'" "prev (?es' ! i) = Some j"
    then have il: "i < length ?es" by (simp add: f)
    show "j < i"
    proof (cases "Some i = next (?es ! e)")
      case True
      with h have "prev (?es ! e) = Some j" by (simp add: f)
      from ptrs_ok_prev [OF p assms(2) this] ptrs_ok_next [OF p assms(2) True [symmetric]]
      show ?thesis by simp
    next
      case False
      with h have "prev (?es ! i) = Some j" by (simp add: f)
      from ptrs_ok_prev [OF p il this] show ?thesis .
    qed
  qed
  from ch pk show ?thesis unfolding list_inv_def by auto
qed

section \<open>Every reachable store has the invariant\<close>

lemma RemoveMarked_id: "RemoveMarked s = Some s"
  by (simp add: RemoveMarked_def)

lemma reachable_list_inv: "reachable s \<Longrightarrow> list_inv s"
proof (induction rule: reachable.induct)
  case reach_New
  show ?case by (rule list_inv_New)
next
  case (reach_Append s v e s')
  from reach_Append.IH reach_Append.hyps(2) show ?case by (rule list_inv_Append)
next
  case (reach_Remove s e)
  from reach_Remove.IH reach_Remove.hyps(2) show ?case by (rule list_inv_Remove)
next
  case (reach_RemoveMark s e)
  from reach_RemoveMark.IH show ?case by (rule list_inv_RemoveMark)
next
  case (reach_RemoveMarked s s')
  then show ?case by (simp add: RemoveMarked_id)
qed

section \<open>Example stores are reachable\<close>

lemma Append_New: "Append (1::nat) New = Some (0, st1)"
  by (simp add: Append_def New_def st1_def)

lemma appends_st3: "appends [1, 2, 3] New = Some st3"
  by (simp add: Append_def New_def st3_def Let_def set_next_def set_prev_def)

lemma reachable_appends:
  "reachable s \<Longrightarrow> appends vs s = Some s' \<Longrightarrow> reachable s'"
proof (induction vs arbitrary: s)
  case Nil
  then show ?case by simp
next
  case (Cons v vs)
  from Cons.prems(2) obtain e s1 where a: "Append v s = Some (e, s1)" and r: "appends vs s1 = Some s'"
    by (auto split: option.splits)
  from Cons.prems(1) a have "reachable s1" by (rule reach_Append)
  from this r show ?case by (rule Cons.IH)
qed

lemma reachable_st1: "reachable st1"
  using reach_Append [OF reach_New Append_New] .

lemma reachable_st3: "reachable st3"
  using reachable_appends [OF reach_New appends_st3] .

lemma appends_st5: "appends [1, 2, 3, 4, 5] New = Some st5"
  by (simp add: Append_def New_def st5_def Let_def set_next_def set_prev_def)

lemma reachable_st5: "reachable st5"
  using reachable_appends [OF reach_New appends_st5] .

section \<open>\<^verbatim>\<open>Next\<close> and the traversal return\<close>



text \<open>
  What \<^verbatim>\<open>Next\<close> returns: the first unmarked element on the way along \<^verbatim>\<open>next\<close>, or nil
  when every element on that way is marked.
\<close>

lemma skip_marked_run:
  assumes "ptrs_ok es"
  shows "i < length es \<Longrightarrow>
    \<exists>ms r. skip_marked es (Some i) = Some r \<and> linked_run es (Some i) ms r \<and>
      (\<forall>m\<in>set ms. remove (es ! m)) \<and> (\<forall>j. r = Some j \<longrightarrow> \<not> remove (es ! j))"
proof (induction "length es - i" arbitrary: i rule: less_induct)
  case less
  show ?case
  proof (cases "remove (es ! i)")
    case False
    then have "skip_marked es (Some i) = Some (Some i)" by (simp add: skip_marked.simps)
    moreover have "linked_run es (Some i) [] (Some i)" by simp
    moreover have "\<forall>m\<in>set ([] :: nat list). remove (es ! m)" by simp
    moreover have "\<forall>j. Some i = Some j \<longrightarrow> \<not> remove (es ! j)" using False by simp
    ultimately show ?thesis by blast
  next
    case True
    have L: "skip_marked es (Some i) = skip_marked es (next (es ! i))"
      using True by (subst skip_marked.simps) simp
    show ?thesis
    proof (cases "next (es ! i)")
      case None
      with L have "skip_marked es (Some i) = Some None" by (simp add: skip_marked.simps)
      moreover have "linked_run es (Some i) [i] None" using None by simp
      moreover have "\<forall>m\<in>set [i]. remove (es ! m)" using True by simp
      ultimately show ?thesis by blast
    next
      case (Some k)
      from ptrs_ok_next [OF assms less.prems Some] have k: "i < k" "k < length es" by simp_all
      then have "length es - k < length es - i" by arith
      from less.hyps [OF this k(2)] obtain ms r where
        r: "skip_marked es (Some k) = Some r" "linked_run es (Some k) ms r"
           "\<forall>m\<in>set ms. remove (es ! m)" "\<forall>j. r = Some j \<longrightarrow> \<not> remove (es ! j)" by blast
      have "skip_marked es (Some i) = Some r" using L Some r(1) by simp
      moreover have "linked_run es (Some i) (i # ms) r" using Some r(2) by simp
      moreover have "\<forall>m\<in>set (i # ms). remove (es ! m)" using True r(3) by simp
      ultimately show ?thesis using r(4) by blast
    qed
  qed
qed

lemma Next_run:
  assumes "ptrs_ok (elems s)" "e < length (elems s)"
  shows "\<exists>ms r. Next e s = Some r \<and> linked_run (elems s) (next (elems s ! e)) ms r \<and>
      (\<forall>m\<in>set ms. ToRemove m s) \<and> (\<forall>j. r = Some j \<longrightarrow> \<not> ToRemove j s)"
proof (cases "next (elems s ! e)")
  case None
  then have "Next e s = Some None" by (simp add: Next_def skip_marked.simps)
  moreover have "linked_run (elems s) (next (elems s ! e)) [] None" using None by simp
  moreover have "\<forall>m\<in>set ([] :: nat list). ToRemove m s" by simp
  ultimately show ?thesis by blast
next
  case (Some k)
  from ptrs_ok_next [OF assms Some] have "k < length (elems s)" by simp
  from skip_marked_run [OF assms(1) this] Some show ?thesis
    by (simp add: Next_def ToRemove_def)
qed

lemma Next_unfold:
  "Next e s =
     (case next (elems s ! e) of
        None \<Rightarrow> Some None
      | Some n \<Rightarrow> if ToRemove n s then Next n s else Some (Some n))"
  by (simp add: Next_def ToRemove_def skip_marked.simps split: option.splits)



section \<open>Links of live and of removed elements\<close>

lemma list_inv_links_valid:
  assumes "list_inv s" "e < length (elems s)"
  shows "\<forall>j. prev (elems s ! e) = Some j \<longrightarrow> j < length (elems s)"
    and "\<forall>j. next (elems s ! e) = Some j \<longrightarrow> j < length (elems s)"
    and "prev (elems s ! e) \<noteq> Some e" and "next (elems s ! e) \<noteq> Some e"
proof -
  from assms(1) have p: "ptrs_ok (elems s)" by (simp add: list_inv_def)
  show "\<forall>j. prev (elems s ! e) = Some j \<longrightarrow> j < length (elems s)"
    using ptrs_ok_prev [OF p assms(2)] assms(2) by fastforce
  show "\<forall>j. next (elems s ! e) = Some j \<longrightarrow> j < length (elems s)"
    using ptrs_ok_next [OF p assms(2)] by blast
  show "prev (elems s ! e) \<noteq> Some e" using ptrs_ok_prev [OF p assms(2), of e] by auto
  show "next (elems s ! e) \<noteq> Some e" using ptrs_ok_next [OF p assms(2), of e] by auto
qed

lemma list_inv_head_live:
  assumes "list_inv s" "head s = Some h"
  shows "h < length (elems s)" "\<not> removed (elems s ! h)" "prev (elems s ! h) = None"
proof -
  from assms(1) obtain c where c: "chain_of s c" by (auto simp: list_inv_def)
  from chain_of_head [OF c] assms(2) obtain ys where cc: "c = h # ys" by (cases c) simp_all
  then have "h \<in> set c" by simp
  from chain_of_mem [OF c this] show "h < length (elems s)" "\<not> removed (elems s ! h)" by simp_all
  from chain_of_dll [OF c] show "prev (elems s ! h) = None" unfolding cc by simp
qed

lemma list_inv_tail_live:
  assumes "list_inv s" "tail s = Some t"
  shows "t < length (elems s)" "\<not> removed (elems s ! t)" "next (elems s ! t) = None"
proof -
  from assms(1) obtain c where c: "chain_of s c" by (auto simp: list_inv_def)
  from chain_of_tail [OF c] assms(2) have ne: "c \<noteq> []" and t: "t = last c"
    by (auto split: if_splits)
  then obtain xs where cc: "c = xs @ [t]" by (metis append_butlast_last_id)
  then have "t \<in> set c" by simp
  from chain_of_mem [OF c this] show "t < length (elems s)" "\<not> removed (elems s ! t)" by simp_all
  from chain_of_dll [OF c] show "next (elems s ! t) = None" unfolding cc by (simp add: dll_append)
qed

lemma skip_marked_cong:
  assumes "ptrs_ok es" "length es' = length es"
    "\<forall>i. k \<le> i \<longrightarrow> next (es' ! i) = next (es ! i) \<and> remove (es' ! i) = remove (es ! i)"
  shows "i < length es \<Longrightarrow> k \<le> i \<Longrightarrow> skip_marked es' (Some i) = skip_marked es (Some i)"
proof (induction "length es - i" arbitrary: i rule: less_induct)
  case less
  from assms(3) less.prems(2) have same: "next (es' ! i) = next (es ! i)" "remove (es' ! i) = remove (es ! i)"
    by simp_all
  show ?case
  proof (cases "remove (es ! i)")
    case False
    with same show ?thesis by (simp add: skip_marked.simps)
  next
    case True
    have L: "skip_marked es' (Some i) = skip_marked es' (next (es ! i))"
      using True same by (subst skip_marked.simps) simp
    have R: "skip_marked es (Some i) = skip_marked es (next (es ! i))"
      using True by (subst skip_marked.simps) simp
    show ?thesis
    proof (cases "next (es ! i)")
      case None
      with L R show ?thesis by (simp add: skip_marked.simps)
    next
      case (Some j)
      from ptrs_ok_next [OF assms(1) less.prems(1) Some] have j: "i < j" "j < length es" by simp_all
      then have "length es - j < length es - i" "k \<le> j" using less.prems(2) by arith+
      from less.hyps [OF this(1) j(2) this(2)] L R Some show ?thesis by simp
    qed
  qed
qed

lemma Next_Remove_same:
  assumes "list_inv s" "e < length (elems s)"
  shows "Next e (Remove e s) = Next e s"
    and "next (elems (Remove e s) ! e) = next (elems s ! e)"
    and "prev (elems (Remove e s) ! e) = prev (elems s ! e)"
proof -
  have "Next e (Remove e s) = Next e s \<and> next (elems (Remove e s) ! e) = next (elems s ! e) \<and>
    prev (elems (Remove e s) ! e) = prev (elems s ! e)"
  proof (cases "removed (elems s ! e)")
    case True
    then show ?thesis by (simp add: Remove_removed)
  next
    case False
    from assms(1) have p: "ptrs_ok (elems s)" by (simp add: list_inv_def)
    note v = list_inv_links_valid [OF assms]
    note f = Remove_fields [OF False assms(2) v(1,2)]
    have n: "next (elems (Remove e s) ! e) = next (elems s ! e)"
      and q: "prev (elems (Remove e s) ! e) = prev (elems s ! e)"
      using v(3,4) by (auto simp: f)
    have "Next e (Remove e s) = Next e s"
    proof (cases "next (elems s ! e)")
      case None
      with n show ?thesis by (simp add: Next_def skip_marked.simps)
    next
      case (Some j)
      from ptrs_ok_next [OF p assms(2) Some] have j: "e < j" "j < length (elems s)" by simp_all
      have "\<forall>i. e \<le> i \<longrightarrow> next (elems (Remove e s) ! i) = next (elems s ! i) \<and>
          remove (elems (Remove e s) ! i) = remove (elems s ! i)"
      proof (intro allI impI)
        fix i assume "e \<le> i"
        then have "Some i \<noteq> prev (elems s ! e)" using ptrs_ok_prev [OF p assms(2), of i] by auto
        then show "next (elems (Remove e s) ! i) = next (elems s ! i) \<and>
          remove (elems (Remove e s) ! i) = remove (elems s ! i)" by (simp add: f)
      qed
      from skip_marked_cong [OF p f(1) this j(2)] j(1) n Some show ?thesis
        by (simp add: Next_def)
    qed
    with n q show ?thesis by simp
  qed
  then show "Next e (Remove e s) = Next e s"
    and "next (elems (Remove e s) ! e) = next (elems s ! e)"
    and "prev (elems (Remove e s) ! e) = prev (elems s ! e)" by simp_all
qed

lemma live_neighbours_live:
  assumes "list_inv s" "x < length (elems s)" "\<not> removed (elems s ! x)"
  shows "next (elems s ! x) = Some j \<Longrightarrow> \<not> removed (elems s ! j)"
    and "prev (elems s ! x) = Some j \<Longrightarrow> \<not> removed (elems s ! j)"
proof -
  from assms(1) obtain c where c: "chain_of s c" by (auto simp: list_inv_def)
  from chain_of_split [OF c assms(2,3)] obtain xs ys where
    cc: "c = xs @ x # ys"
    and pe: "prev (elems s ! x) = (if xs = [] then None else Some (last xs))"
    and ne: "next (elems s ! x) = (case ys of [] \<Rightarrow> None | y # _ \<Rightarrow> Some y)" by blast
  {
    assume "next (elems s ! x) = Some j"
    with ne have "j \<in> set c" unfolding cc by (cases ys) simp_all
    from chain_of_mem [OF c this] show "\<not> removed (elems s ! j)" by simp
  }
  {
    assume "prev (elems s ! x) = Some j"
    with pe have "xs \<noteq> []" "j = last xs" by (auto split: if_splits)
    then have "j \<in> set c" unfolding cc by simp
    from chain_of_mem [OF c this] show "\<not> removed (elems s ! j)" by simp
  }
qed

lemma frozen_Remove:
  assumes "list_inv s" "x < length (elems s)" "e < length (elems s)" "removed (elems s ! e)"
  shows "frozen e s (Remove x s)"
proof (cases "removed (elems s ! x)")
  case True
  with assms(3,4) show ?thesis by (simp add: Remove_removed frozen_def)
next
  case False
  note f = Remove_fields [OF False assms(2) list_inv_links_valid(1,2) [OF assms(1,2)]]
  from live_neighbours_live [OF assms(1,2) False, of e] assms(4)
  have "next (elems s ! x) \<noteq> Some e" "prev (elems s ! x) \<noteq> Some e" by auto
  then have "Some e \<noteq> next (elems s ! x)" "Some e \<noteq> prev (elems s ! x)" by auto
  with assms(3,4) show ?thesis by (simp add: f frozen_def)
qed

lemma frozen_RemoveMark:
  assumes "e < length (elems s)" "removed (elems s ! e)"
  shows "frozen e s (RemoveMark x s)"
  using assms by (simp add: frozen_def RemoveMark_def)

lemma frozen_Append:
  assumes "list_inv s" "e < length (elems s)" "removed (elems s ! e)" "Append v s = Some (x, s')"
  shows "frozen e s s'"
proof (cases "head s")
  case None
  from assms(4) have "s' = s\<lparr>elems := elems s @ [fresh v], head := Some (length (elems s)),
        tail := Some (length (elems s))\<rparr>"
    by (auto simp: Append_empty [OF None])
  with assms(2,3) show ?thesis by (simp add: frozen_def nth_append)
next
  case (Some h)
  from list_inv_tail [OF assms(1) Some] obtain t where t: "tail s = Some t" ..
  from list_inv_tail_live [OF assms(1) t] assms(3) have "t \<noteq> e" by auto
  moreover from assms(4) have "s' = s\<lparr>elems := set_prev (length (elems s)) (Some t)
                  (set_next t (Some (length (elems s))) (elems s @ [fresh v])),
        tail := Some (length (elems s)), size_l := size_l s + 1\<rparr>"
    by (auto simp: Append_nonempty [OF Some t])
  ultimately show ?thesis using assms(2,3) by (simp add: frozen_def nth_append)
qed

lemma later_frozen:
  assumes "later s0 s'" "list_inv s0" "e < length (elems s0)" "removed (elems s0 ! e)"
  shows "list_inv s' \<and> frozen e s0 s'"
  using assms
proof (induction rule: later.induct)
  case (later_refl s)
  then show ?case by (simp add: frozen_def)
next
  case (later_Append s s1 v x s2)
  then have i: "list_inv s1" and f: "frozen e s s1" by simp_all
  from f have "e < length (elems s1)" "removed (elems s1 ! e)" by (simp_all add: frozen_def)
  from frozen_Append [OF i this later_Append.hyps(2)] f have "frozen e s s2"
    by (simp add: frozen_def)
  moreover from i later_Append.hyps(2) have "list_inv s2" by (rule list_inv_Append)
  ultimately show ?case by simp
next
  case (later_Remove s s1 x)
  then have i: "list_inv s1" and f: "frozen e s s1" by simp_all
  from f have "e < length (elems s1)" "removed (elems s1 ! e)" by (simp_all add: frozen_def)
  from frozen_Remove [OF i later_Remove.hyps(2) this] f have "frozen e s (Remove x s1)"
    by (simp add: frozen_def)
  moreover from i later_Remove.hyps(2) have "list_inv (Remove x s1)" by (rule list_inv_Remove)
  ultimately show ?case by simp
next
  case (later_RemoveMark s s1 x)
  then have i: "list_inv s1" and f: "frozen e s s1" by simp_all
  from f have "e < length (elems s1)" "removed (elems s1 ! e)" by (simp_all add: frozen_def)
  from frozen_RemoveMark [OF this, of x] f have "frozen e s (RemoveMark x s1)"
    by (simp add: frozen_def)
  moreover from i have "list_inv (RemoveMark x s1)" by (rule list_inv_RemoveMark)
  ultimately show ?case by simp
next
  case (later_RemoveMarked s s1 s2)
  then show ?case by (simp add: RemoveMarked_id)
qed

section \<open>Counting\<close>

text \<open>
  On a new list the first \<^verbatim>\<open>Append\<close> returns before \<^verbatim>\<open>l.size++\<close>, every later one
  counts: \<open>N\<close> appends leave the counter at \<open>N - 1\<close>.
\<close>

lemma appends_nonempty_Len:
  "head s \<noteq> None \<Longrightarrow> tail s \<noteq> None \<Longrightarrow>
   \<exists>s'. appends vs s = Some s' \<and> Len s' = Len s + int (length vs)"
proof (induction vs arbitrary: s)
  case Nil
  then show ?case by simp
next
  case (Cons v vs)
  from Cons.prems obtain h t where ht: "head s = Some h" "tail s = Some t" by auto
  let ?s1 = "s\<lparr>elems := set_prev (length (elems s)) (Some t)
                  (set_next t (Some (length (elems s))) (elems s @ [fresh v])),
        tail := Some (length (elems s)), size_l := size_l s + 1\<rparr>"
  have a: "Append v s = Some (length (elems s), ?s1)" by (rule Append_nonempty [OF ht])
  have "head ?s1 \<noteq> None" "tail ?s1 \<noteq> None" using ht by simp_all
  from Cons.IH [OF this] obtain s' where "appends vs ?s1 = Some s'" "Len s' = Len ?s1 + int (length vs)"
    by blast
  then show ?case using a by (simp add: Len_def)
qed

lemma appends_New_Len:
  "vs \<noteq> [] \<Longrightarrow> \<exists>s'. appends vs New = Some s' \<and> Len s' = int (length vs) - 1"
proof (cases vs)
  case Nil
  assume "vs \<noteq> []" with Nil show ?thesis by simp
next
  case (Cons v ws)
  let ?s1 = "\<lparr>head = Some 0, tail = Some 0, size_l = 0, elems = [fresh v]\<rparr>"
  have a: "Append v New = Some (0, ?s1)"
    by (simp add: Append_def New_def fresh_def)
  have "head ?s1 \<noteq> None" "tail ?s1 \<noteq> None" by simp_all
  from appends_nonempty_Len [OF this, of ws] obtain s' where
    "appends ws ?s1 = Some s'" "Len s' = Len ?s1 + int (length ws)" by blast
  then show ?thesis using a Cons by (simp add: Len_def New_def)
qed

section \<open>The claims\<close>

text \<open>
  C1.  The claim is that \<open>N\<close> appends to a new list give \<^verbatim>\<open>Len() = N\<close>.  At
  \<open>N = 1\<close> the code gives \<open>0\<close> (and \<open>N - 1\<close> for every \<open>N\<close>, by
  \<open>appends_New_Len\<close>).
\<close>

theorem Append_once_Len: "map_option (\<lambda>r. Len (snd r)) (Append v New) = Some 0"
  by (simp add: Append_def New_def Len_def)

text \<open>
  C2.  The claim is that marking a set of elements and running \<^verbatim>\<open>RemoveMarked\<close>
  lowers \<^verbatim>\<open>Len()\<close> by the number of marks.  With the second of three elements
  marked, \<^verbatim>\<open>RemoveMarked\<close> returns the store it was given: \<^verbatim>\<open>Len()\<close> is \<open>2\<close> before
  and after, and the marked element is not removed.
\<close>

theorem RemoveMarked_keeps_marked:
  "appends [1, 2, 3] New = Some st3 \<and>
   Len (RemoveMark 1 st3) = 2 \<and>
   RemoveMarked (RemoveMark 1 st3) = Some (RemoveMark 1 st3) \<and>
   \<not> removed (elems (RemoveMark 1 st3) ! 1)"
proof (intro conjI)
  show "appends [1, 2, 3] New = Some st3" by (rule appends_st3)
  show "Len (RemoveMark 1 st3) = 2" by (simp add: RemoveMark_def Len_def st3_def)
  show "RemoveMarked (RemoveMark 1 st3) = Some (RemoveMark 1 st3)" by (simp add: RemoveMarked_def)
  show "\<not> removed (elems (RemoveMark 1 st3) ! 1)" by (simp add: RemoveMark_def st3_def)
qed




text \<open>
  C4.  The claim is that removing the only element leaves \<^verbatim>\<open>Head()\<close> nil and
  \<^verbatim>\<open>Len()\<close> at \<open>0\<close>.  After \<^verbatim>\<open>Append(1)\<close> on a new list and \<^verbatim>\<open>Remove\<close> of that
  element the head is nil, and the counter, never raised by the first append, is
  \<open>-1\<close>.
\<close>

theorem Remove_sole_Len:
  "Append (1::nat) New = Some (0, st1) \<and> Head (Remove 0 st1) = None \<and> Len (Remove 0 st1) = - 1"
  by (simp add: Append_def New_def st1_def Remove_def Head_def Len_def set_removed_def)

text \<open>
  C5.  In a reachable store, \<^verbatim>\<open>Remove\<close> of the head \<open>h\<close> that has a successor \<open>hn\<close>
  makes \<open>hn\<close> the head and clears its \<^verbatim>\<open>prev\<close>; \<^verbatim>\<open>Remove\<close> of the tail \<open>t\<close> that has a
  predecessor \<open>tp\<close> makes \<open>tp\<close> the tail and clears its \<^verbatim>\<open>next\<close>; \<^verbatim>\<open>Remove\<close> of a live
  element \<open>e\<close> between \<open>p\<close> and \<open>n\<close> sets \<open>p\<close>'s \<^verbatim>\<open>next\<close> to \<open>n\<close> and \<open>n\<close>'s \<^verbatim>\<open>prev\<close> to \<open>p\<close>.
\<close>

theorem Remove_relinks:
  assumes "reachable s"
  shows "(head s = Some h \<and> next (elems s ! h) = Some hn \<longrightarrow>
            head (Remove h s) = Some hn \<and> prev (elems (Remove h s) ! hn) = None) \<and>
         (tail s = Some t \<and> prev (elems s ! t) = Some tp \<longrightarrow>
            tail (Remove t s) = Some tp \<and> next (elems (Remove t s) ! tp) = None) \<and>
         (e < length (elems s) \<and> \<not> removed (elems s ! e) \<and>
          prev (elems s ! e) = Some p \<and> next (elems s ! e) = Some n \<longrightarrow>
            next (elems (Remove e s) ! p) = Some n \<and> prev (elems (Remove e s) ! n) = Some p)"
proof (intro conjI impI; elim conjE)
  from assms have inv: "list_inv s" by (rule reachable_list_inv)
  {
    assume h: "head s = Some h" "next (elems s ! h) = Some hn"
    note l = list_inv_head_live [OF inv h(1)]
    note f = Remove_fields [OF l(2) l(1) list_inv_links_valid(1,2) [OF inv l(1)]]
    show "head (Remove h s) = Some hn" using l(3) h(2) by (simp add: f)
    show "prev (elems (Remove h s) ! hn) = None" using l(3) h(2) by (simp add: f)
  }
  {
    assume t: "tail s = Some t" "prev (elems s ! t) = Some tp"
    note l = list_inv_tail_live [OF inv t(1)]
    note f = Remove_fields [OF l(2) l(1) list_inv_links_valid(1,2) [OF inv l(1)]]
    show "tail (Remove t s) = Some tp" using l(3) t(2) by (simp add: f)
    show "next (elems (Remove t s) ! tp) = None" using l(3) t(2) by (simp add: f)
  }
  {
    assume e: "e < length (elems s)" "\<not> removed (elems s ! e)"
      "prev (elems s ! e) = Some p" "next (elems s ! e) = Some n"
    note f = Remove_fields [OF e(2) e(1) list_inv_links_valid(1,2) [OF inv e(1)]]
    show "next (elems (Remove e s) ! p) = Some n" using e(3,4) by (simp add: f)
    show "prev (elems (Remove e s) ! n) = Some p" using e(3,4) by (simp add: f)
  }
qed

theorem Remove_relinks_witness:
  "reachable st3 \<and>
   (head st3 = Some 0 \<and> next (elems st3 ! 0) = Some 1) \<and>
   (head (Remove 0 st3) = Some 1 \<and> prev (elems (Remove 0 st3) ! 1) = None) \<and>
   (tail st3 = Some 2 \<and> prev (elems st3 ! 2) = Some 1) \<and>
   (tail (Remove 2 st3) = Some 1 \<and> next (elems (Remove 2 st3) ! 1) = None) \<and>
   ((1::nat) < length (elems st3) \<and> \<not> removed (elems st3 ! 1) \<and>
    prev (elems st3 ! 1) = Some 0 \<and> next (elems st3 ! 1) = Some 2) \<and>
   (next (elems (Remove 1 st3) ! 0) = Some 2 \<and> prev (elems (Remove 1 st3) ! 2) = Some 0)"
proof -
  have h: "head st3 = Some 0 \<and> next (elems st3 ! 0) = Some 1"
    and t: "tail st3 = Some 2 \<and> prev (elems st3 ! 2) = Some 1"
    and e: "(1::nat) < length (elems st3) \<and> \<not> removed (elems st3 ! 1) \<and>
            prev (elems st3 ! 1) = Some 0 \<and> next (elems st3 ! 1) = Some 2"
    by (simp_all add: st3_def)
  from Remove_relinks [OF reachable_st3, of 0 1 2 1 1 0 2] h t e reachable_st3
  show ?thesis by blast
qed

text \<open>
  C6.  For every handle of every store, a second \<^verbatim>\<open>Remove\<close> on the same handle is a
  no-op: the store after two calls is the store after one, counter and links included.
\<close>

theorem Remove_twice:
  "e < length (elems s) \<Longrightarrow> Remove e (Remove e s) = Remove e s"
  by (auto simp: Remove_def Let_def split: option.splits)

theorem Remove_twice_witness:
  "(1::nat) < length (elems st3) \<and> Remove 1 (Remove 1 st3) = Remove 1 st3"
  using Remove_twice [of 1 st3] by (simp add: st3_def)

text \<open>
  C7.  In every store built from \<^verbatim>\<open>New()\<close> by \<^verbatim>\<open>Append\<close>, \<^verbatim>\<open>Remove\<close>, \<^verbatim>\<open>RemoveMark\<close>
  and \<^verbatim>\<open>RemoveMarked\<close>, \<^verbatim>\<open>head\<close> is nil exactly when \<^verbatim>\<open>tail\<close> is.
\<close>

theorem head_tail_absent_together: "reachable s \<Longrightarrow> (head s = None) = (tail s = None)"
proof -
  assume "reachable s"
  then have "list_inv s" by (rule reachable_list_inv)
  then obtain c where c: "chain_of s c" by (auto simp: list_inv_def)
  from chain_of_head [OF c] chain_of_tail [OF c] show ?thesis by (cases c) simp_all
qed

theorem head_tail_absent_together_witness:
  "reachable (Remove 0 st1) \<and> (head (Remove 0 st1) = None) = (tail (Remove 0 st1) = None)"
proof -
  have r: "reachable (Remove 0 st1)"
    by (rule reach_Remove [OF reachable_st1]) (simp add: st1_def)
  from r head_tail_absent_together [OF r] show ?thesis by simp
qed

text \<open>
  C8.  \<^verbatim>\<open>RemoveMark\<close> sets the \<^verbatim>\<open>remove\<close> flag of its element and nothing else: size,
  head and tail, the element's \<^verbatim>\<open>next\<close>, \<^verbatim>\<open>prev\<close>, \<^verbatim>\<open>value\<close> and \<^verbatim>\<open>removed\<close>, and every
  other element stay as they are; a second call changes nothing.
\<close>

theorem RemoveMark_frame:
  "e < length (elems s) \<Longrightarrow>
   remove (elems (RemoveMark e s) ! e) \<and>
   size_l (RemoveMark e s) = size_l s \<and> head (RemoveMark e s) = head s \<and>
   tail (RemoveMark e s) = tail s \<and>
   length (elems (RemoveMark e s)) = length (elems s) \<and>
   next (elems (RemoveMark e s) ! e) = next (elems s ! e) \<and>
   prev (elems (RemoveMark e s) ! e) = prev (elems s ! e) \<and>
   value (elems (RemoveMark e s) ! e) = value (elems s ! e) \<and>
   removed (elems (RemoveMark e s) ! e) = removed (elems s ! e) \<and>
   (\<forall>i. i \<noteq> e \<longrightarrow> elems (RemoveMark e s) ! i = elems s ! i) \<and>
   RemoveMark e (RemoveMark e s) = RemoveMark e s"
  by (simp add: RemoveMark_def set_remove_def)

theorem RemoveMark_frame_witness:
  "(1::nat) < length (elems st3) \<and>
   remove (elems (RemoveMark 1 st3) ! 1) \<and>
   size_l (RemoveMark 1 st3) = 2 \<and> head (RemoveMark 1 st3) = Some 0 \<and>
   tail (RemoveMark 1 st3) = Some 2 \<and>
   elems (RemoveMark 1 st3) ! 0 = elems st3 ! 0 \<and>
   RemoveMark 1 (RemoveMark 1 st3) = RemoveMark 1 st3"
  using RemoveMark_frame [of 1 st3] by (simp add: st3_def)

text \<open>
  C9.  A call of \<^verbatim>\<open>RemoveMarked\<close> returns and leaves the whole store as it was,
  head, tail, size and every element, whatever is marked: its loop condition
  \<^verbatim>\<open>!done\<close> is false on entry.
\<close>

theorem RemoveMarked_unchanged: "RemoveMarked s = Some s"
  by (simp add: RemoveMarked_def)

text \<open>
  C10.  \<^verbatim>\<open>Remove\<close> leaves the \<^verbatim>\<open>next\<close> and \<^verbatim>\<open>prev\<close> of the element \<open>e\<close> it removes as they
  were, and nothing the program does later writes them.  So in every later store
  \<^verbatim>\<open>Next()\<close> on the removed handle returns, and what it returns is found from the
  successor of \<open>e\<close> at the time of removal by skipping marked elements: every element
  passed on the way along \<^verbatim>\<open>next\<close> is marked, and the result is nil or an element that
  is not marked.  It is that successor itself when the successor is not marked, and
  what \<^verbatim>\<open>Next()\<close> of that successor returns when it is.  Right after the removal it
  is what \<^verbatim>\<open>Next()\<close> returned before it.
\<close>

theorem Next_of_removed:
  assumes "reachable s" "e < length (elems s)" "later (Remove e s) s'"
  shows "next (elems s' ! e) = next (elems s ! e) \<and>
         prev (elems s' ! e) = prev (elems s ! e) \<and>
         (\<exists>ms r. Next e s' = Some r \<and>
            linked_run (elems s') (next (elems s ! e)) ms r \<and>
            (\<forall>m\<in>set ms. ToRemove m s') \<and>
            (\<forall>j. r = Some j \<longrightarrow> \<not> ToRemove j s')) \<and>
         Next e s' =
           (case next (elems s ! e) of
              None \<Rightarrow> Some None
            | Some n \<Rightarrow> if ToRemove n s' then Next n s' else Some (Some n)) \<and>
         Next e (Remove e s) = Next e s"
proof -
  from assms(1) have inv: "list_inv s" by (rule reachable_list_inv)
  note same = Next_Remove_same [OF inv assms(2)]
  have inv': "list_inv (Remove e s)" using inv assms(2) by (rule list_inv_Remove)
  have rm: "e < length (elems (Remove e s)) \<and> removed (elems (Remove e s) ! e)"
  proof (cases "removed (elems s ! e)")
    case True
    with assms(2) show ?thesis by (simp add: Remove_removed)
  next
    case False
    from Remove_fields(1,2) [OF False assms(2) list_inv_links_valid(1,2) [OF inv assms(2)]] assms(2)
    show ?thesis by simp
  qed
  from rm have "e < length (elems (Remove e s))" "removed (elems (Remove e s) ! e)" by simp_all
  from later_frozen [OF assms(3) inv' this] have i: "list_inv s'" and f: "frozen e (Remove e s) s'"
    by simp_all
  from f same have l: "next (elems s' ! e) = next (elems s ! e)" "prev (elems s' ! e) = prev (elems s ! e)"
    and v: "e < length (elems s')" by (simp_all add: frozen_def)
  from i have p: "ptrs_ok (elems s')" by (simp add: list_inv_def)
  have run: "\<exists>ms r. Next e s' = Some r \<and>
            linked_run (elems s') (next (elems s ! e)) ms r \<and>
            (\<forall>m\<in>set ms. ToRemove m s') \<and>
            (\<forall>j. r = Some j \<longrightarrow> \<not> ToRemove j s')"
    using Next_run [OF p v] unfolding l(1) .
  have unf: "Next e s' =
           (case next (elems s ! e) of
              None \<Rightarrow> Some None
            | Some n \<Rightarrow> if ToRemove n s' then Next n s' else Some (Some n))"
    using Next_unfold [of e s'] unfolding l(1) .
  from l run unf same(1) show ?thesis by blast
qed

theorem Next_of_removed_witness:
  "reachable st5 \<and> (1::nat) < length (elems st5) \<and>
   later (Remove 1 st5) (RemoveMark 3 (RemoveMark 2 (Remove 1 st5))) \<and>
   next (elems (RemoveMark 3 (RemoveMark 2 (Remove 1 st5))) ! 1) = Some 2 \<and>
   prev (elems (RemoveMark 3 (RemoveMark 2 (Remove 1 st5))) ! 1) = Some 0 \<and>
   ToRemove 2 (RemoveMark 3 (RemoveMark 2 (Remove 1 st5))) \<and>
   ToRemove 3 (RemoveMark 3 (RemoveMark 2 (Remove 1 st5))) \<and>
   \<not> ToRemove 4 (RemoveMark 3 (RemoveMark 2 (Remove 1 st5))) \<and>
   linked_run (elems (RemoveMark 3 (RemoveMark 2 (Remove 1 st5)))) (Some 2) [2, 3] (Some 4) \<and>
   Next 1 (RemoveMark 3 (RemoveMark 2 (Remove 1 st5))) = Some (Some 4) \<and>
   Next 1 (RemoveMark 3 (RemoveMark 2 (Remove 1 st5))) =
     Next 2 (RemoveMark 3 (RemoveMark 2 (Remove 1 st5))) \<and>
   Next 1 (Remove 1 st5) = Some (Some 2) \<and>
   Next 1 (Remove 1 st5) = Next 1 st5"
proof -
  let ?s = "RemoveMark 3 (RemoveMark 2 (Remove 1 st5))"
  have v: "(1::nat) < length (elems st5)" by (simp add: st5_def)
  have l0: "later (Remove 1 st5) (Remove 1 st5)" by (rule later_refl)
  have "later (Remove 1 st5) (RemoveMark 2 (Remove 1 st5))"
    by (rule later_RemoveMark [OF l0]) (simp add: st5_def Remove_def)
  then have l: "later (Remove 1 st5) ?s"
    by (rule later_RemoveMark) (simp add: st5_def Remove_def RemoveMark_def)
  have n: "next (elems st5 ! 1) = Some 2" "prev (elems st5 ! 1) = Some 0"
    by (simp_all add: st5_def)
  have es: "elems ?s =
     [\<lparr>value = 1, remove = False, removed = False, next = Some 2, prev = None\<rparr>,
      \<lparr>value = 2, remove = False, removed = True, next = Some 2, prev = Some 0\<rparr>,
      \<lparr>value = 3, remove = True, removed = False, next = Some 3, prev = Some 0\<rparr>,
      \<lparr>value = 4, remove = True, removed = False, next = Some 4, prev = Some 2\<rparr>,
      \<lparr>value = 5, remove = False, removed = False, next = None, prev = Some 3\<rparr>]"
    by (simp add: st5_def Remove_def RemoveMark_def set_removed_def set_remove_def
        set_next_def set_prev_def)
  have m: "ToRemove 2 ?s" "ToRemove 3 ?s" "\<not> ToRemove 4 ?s"
    unfolding ToRemove_def es by simp_all
  have r: "linked_run (elems ?s) (Some 2) [2, 3] (Some 4)" unfolding es by simp
  have k: "Next 2 ?s = Some (Some 4)"
    unfolding Next_def es by (simp add: skip_marked.simps)
  have a: "Next 1 ?s = Some (Some 4)"
    using Next_of_removed [OF reachable_st5 v l] n m k by simp
  have b: "Next 1 (Remove 1 st5) = Some (Some 2)"
    using Next_of_removed [OF reachable_st5 v l0] n
    by (simp add: ToRemove_def st5_def Remove_def set_removed_def set_next_def set_prev_def)
  from Next_of_removed [OF reachable_st5 v l] reachable_st5 v l n m r a b k show ?thesis by simp
qed

end
